theory Spec2Isabelle
  imports Main
begin

section \<open>JavaScript values used by \<^verbatim>\<open>static/app.js\<close>\<close>

text \<open>
  A JavaScript string is modelled as a \<^typ>\<open>string\<close>, one \<^typ>\<open>char\<close> per code unit, so that
  \<^verbatim>\<open>s.length\<close> is \<^term>\<open>length s\<close>.  A string is falsy exactly when it is empty.
  \<^verbatim>\<open>localStorage\<close> is a partial map from keys to values: \<^verbatim>\<open>getItem\<close> is application
  (\<^term>\<open>None\<close> for \<^verbatim>\<open>null\<close>), \<^verbatim>\<open>setItem\<close> is a map update and \<^verbatim>\<open>removeItem\<close> deletes the key.
\<close>

type_synonym storage = "string \<rightharpoonup> string"

definition startsWith :: "string \<Rightarrow> string \<Rightarrow> bool" where
  "startsWith s p = (take (length p) s = p)"

text \<open>\<^verbatim>\<open>x || ''\<close> for \<^verbatim>\<open>x\<close> a string or \<^verbatim>\<open>null\<close>.\<close>

definition orEmpty :: "string option \<Rightarrow> string" where
  "orEmpty x = (case x of None \<Rightarrow> [] | Some v \<Rightarrow> v)"

text \<open>String conversion of a value that is a string or \<^verbatim>\<open>undefined\<close>, as done by
  \<^verbatim>\<open>setItem\<close> and by template literals.\<close>

definition toStr :: "string option \<Rightarrow> string" where
  "toStr x = (case x of None \<Rightarrow> ''undefined'' | Some v \<Rightarrow> v)"

section \<open>Session guard\<close>

definition STORAGE_PROVIDER :: string where
  "STORAGE_PROVIDER = ''prompt_alchemy_provider''"

definition STORAGE_SESSION :: string where
  "STORAGE_SESSION = ''prompt_alchemy_session''"

definition providerLabels :: "string \<rightharpoonup> string" where
  "providerLabels = [''gemini'' \<mapsto> ''Gemini'', ''openai'' \<mapsto> ''OpenAI'', ''grok'' \<mapsto> ''Grok'']"

definition clearLocalState :: "storage \<Rightarrow> storage" where
  "clearLocalState ls =
     ls(''gemini_api_key'' := None, ''openai_api_key'' := None, ''grok_api_key'' := None,
        STORAGE_PROVIDER := None)"

text \<open>
  \<^verbatim>\<open>appInstance\<close> is \<^verbatim>\<open>document.body.dataset.appInstance\<close>: a string, or \<^verbatim>\<open>undefined\<close>
  (\<^term>\<open>None\<close>) when the host page carries no such attribute.  \<^verbatim>\<open>storedSession\<close> is a string or
  \<^verbatim>\<open>null\<close>; \<^verbatim>\<open>!==\<close> between \<^verbatim>\<open>null\<close> or a string and \<^verbatim>\<open>undefined\<close> is always true.
\<close>

definition strictNe :: "string option \<Rightarrow> string option \<Rightarrow> bool" where
  "strictNe storedSession appInstance =
     (case appInstance of None \<Rightarrow> True | Some a \<Rightarrow> storedSession \<noteq> Some a)"

definition ensureFreshLocalStorage :: "string option \<Rightarrow> storage \<Rightarrow> storage" where
  "ensureFreshLocalStorage appInstance ls =
     (let storedSession = ls STORAGE_SESSION
      in if strictNe storedSession appInstance
         then (clearLocalState ls)(STORAGE_SESSION \<mapsto> toStr appInstance)
         else ls)"

section \<open>Key store\<close>

definition getStorageKey :: "string \<Rightarrow> string" where
  "getStorageKey provider = provider @ ''_api_key''"

definition maskKey :: "string \<Rightarrow> string" where
  "maskKey key = (let len = max 6 (min (length key) 32) in replicate len CHR ''*'')"

text \<open>
  A pending timeout of the browser: its handle, the clock value from which it may fire, and
  the \<^verbatim>\<open>(provider, key)\<close> pair its callback closed over.
\<close>

record timeout =
  handle :: nat
  due :: nat
  cb_provider :: string
  cb_key :: string

text \<open>
  The state the key-store handlers read and write: \<^verbatim>\<open>localStorage\<close>, the \<^verbatim>\<open>keyCache\<close> object,
  the values of the four form controls, the placeholder and the \<^verbatim>\<open>data-masked\<close> flag of the
  visible field (\<^term>\<open>True\<close> for the string \<^verbatim>\<open>'true'\<close>), the variable \<^verbatim>\<open>keyUpdateTimer\<close>, and the
  browser side: pending timeouts, the next timeout handle, a logical clock, the bodies of the
  \<^verbatim>\<open>POST /api/keys\<close> requests sent so far, and the providers of the \<^verbatim>\<open>GET /api/keys\<close>
  requests still outstanding.
\<close>

record keystore =
  localStorage :: storage
  keyCache :: "string \<rightharpoonup> string"
  providerSelect :: string
  providerInput :: string
  apiKeyInput :: string
  apiKeyVisible :: string
  placeholder :: string
  masked :: bool
  keyUpdateTimer :: "nat option"
  timers :: "timeout list"
  nextHandle :: nat
  now :: nat
  posts :: "(string \<times> string) list"
  gets :: "string list"

definition applyMaskedKey :: "string \<Rightarrow> string \<Rightarrow> keystore \<Rightarrow> keystore" where
  "applyMaskedKey provider key st =
     (if key = [] then st
      else st\<lparr>keyCache := (keyCache st)(provider \<mapsto> key),
              apiKeyInput := key,
              apiKeyVisible := maskKey key,
              masked := True\<rparr>)"

text \<open>
  What \<^verbatim>\<open>fetch('/api/keys?provider=...')\<close> settles with: a rejected promise, or a response with
  a status code and a body.  The body is not JSON (\<^verbatim>\<open>res.json()\<close> rejects), or parses to a falsy
  value, or parses to an object whose \<^verbatim>\<open>api_key\<close> is a string or absent (the endpoint's
  contract: \<^verbatim>\<open>{ "api_key": string | absent }\<close>).
\<close>

datatype response_body = NotJson | JsonFalsy | JsonObject "string option"

datatype fetch_result = NetworkError | Response nat response_body

definition hydrateFromEnv :: "string \<Rightarrow> keystore \<Rightarrow> keystore" where
  "hydrateFromEnv provider st = st\<lparr>gets := gets st @ [provider]\<rparr>"

text \<open>The promise chain of \<^verbatim>\<open>hydrateFromEnv\<close>, run when the request for \<open>provider\<close> settles.
  The status code is never read.\<close>

fun hydrateSettled :: "string \<Rightarrow> fetch_result \<Rightarrow> keystore \<Rightarrow> keystore" where
  "hydrateSettled provider NetworkError st = st"
| "hydrateSettled provider (Response status NotJson) st = st"
| "hydrateSettled provider (Response status JsonFalsy) st = st"
| "hydrateSettled provider (Response status (JsonObject None)) st = st"
| "hydrateSettled provider (Response status (JsonObject (Some api_key))) st =
     (if api_key = [] then st
      else (let st1 = applyMaskedKey provider api_key st
            in st1\<lparr>localStorage := (localStorage st1)(getStorageKey provider \<mapsto> api_key)\<rparr>))"

definition syncProvider :: "string \<Rightarrow> keystore \<Rightarrow> keystore" where
  "syncProvider provider st =
     (let st1 = st\<lparr>providerInput := provider,
                    localStorage := (localStorage st)(STORAGE_PROVIDER \<mapsto> provider)\<rparr>;
          storedKey = orEmpty (localStorage st1 (getStorageKey provider));
          st2 = st1\<lparr>placeholder := ''Paste '' @ toStr (providerLabels provider) @ '' API Key''\<rparr>
      in if storedKey \<noteq> [] then applyMaskedKey provider storedKey st2
         else hydrateFromEnv provider (st2\<lparr>apiKeyVisible := [], apiKeyInput := [], masked := False\<rparr>))"

definition clearTimeout :: "nat \<Rightarrow> keystore \<Rightarrow> keystore" where
  "clearTimeout h st = st\<lparr>timers := filter (\<lambda>t. handle t \<noteq> h) (timers st)\<rparr>"

text \<open>\<^verbatim>\<open>if (keyUpdateTimer)\<close> is false for \<^verbatim>\<open>undefined\<close> and for the number 0.\<close>

definition scheduleKeySync :: "string \<Rightarrow> string \<Rightarrow> keystore \<Rightarrow> keystore" where
  "scheduleKeySync provider key st =
     (let st1 = (case keyUpdateTimer st of
                   None \<Rightarrow> st
                 | Some h \<Rightarrow> if h \<noteq> 0 then clearTimeout h st else st)
      in st1\<lparr>timers := timers st1 @
                 [\<lparr>handle = nextHandle st1, due = now st1 + 400,
                   cb_provider = provider, cb_key = key\<rparr>],
              keyUpdateTimer := Some (nextHandle st1),
              nextHandle := Suc (nextHandle st1)\<rparr>)"

text \<open>The page-load part of the script: session guard, then the initial provider.\<close>

definition startup :: "string option \<Rightarrow> storage \<Rightarrow> keystore" where
  "startup appInstance ls =
     (let ls1 = ensureFreshLocalStorage appInstance ls;
          initialProvider = (case ls1 STORAGE_PROVIDER of
                               None \<Rightarrow> ''gemini''
                             | Some p \<Rightarrow> if p = [] then ''gemini'' else p)
      in syncProvider initialProvider
           \<lparr>localStorage = ls1, keyCache = Map.empty, providerSelect = initialProvider,
            providerInput = [], apiKeyInput = [], apiKeyVisible = [], placeholder = [],
            masked = False, keyUpdateTimer = None, timers = [], nextHandle = 1, now = 0,
            posts = [], gets = []\<rparr>)"

text \<open>The four DOM handlers.\<close>

definition onChange :: "string \<Rightarrow> keystore \<Rightarrow> keystore" where
  "onChange v st = syncProvider v (st\<lparr>providerSelect := v\<rparr>)"

definition onFocus :: "keystore \<Rightarrow> keystore" where
  "onFocus st = (if masked st then st\<lparr>apiKeyVisible := [], masked := False\<rparr> else st)"

definition onBlur :: "keystore \<Rightarrow> keystore" where
  "onBlur st =
     (let provider = providerInput st
      in case keyCache st provider of
           None \<Rightarrow> st
         | Some key \<Rightarrow>
             if apiKeyVisible st = [] \<and> key \<noteq> [] then applyMaskedKey provider key st else st)"

text \<open>An \<^verbatim>\<open>input\<close> event: the browser has set the visible field to what the user typed,
  then the handler runs with \<^verbatim>\<open>event.target.value\<close>.\<close>

definition onInput :: "string \<Rightarrow> keystore \<Rightarrow> keystore" where
  "onInput v st0 =
     (let st = st0\<lparr>apiKeyVisible := v\<rparr>;
          key = v;
          provider = providerInput st
      in if key = []
         then st\<lparr>apiKeyInput := [],
                 keyCache := (keyCache st)(provider \<mapsto> []),
                 localStorage := (localStorage st)(getStorageKey provider := None)\<rparr>
         else scheduleKeySync provider key
                (st\<lparr>keyCache := (keyCache st)(provider \<mapsto> key),
                    apiKeyInput := key,
                    localStorage := (localStorage st)(getStorageKey provider \<mapsto> key)\<rparr>))"

text \<open>
  The browser side.  The clock moves forward to \<open>t\<close>; every pending timeout that is due by then
  fires, in the order it was set, and its callback posts the pair it captured.  A timeout never
  fires before its due time.  The \<open>i\<close>-th outstanding \<^verbatim>\<open>GET\<close> settles with a result.
\<close>

definition advance :: "nat \<Rightarrow> keystore \<Rightarrow> keystore" where
  "advance t st =
     (let t' = max t (now st)
      in st\<lparr>now := t',
             posts := posts st @ map (\<lambda>x. (cb_provider x, cb_key x))
                                     (filter (\<lambda>x. due x \<le> t') (timers st)),
             timers := filter (\<lambda>x. \<not> due x \<le> t') (timers st)\<rparr>)"

definition settleGet :: "nat \<Rightarrow> fetch_result \<Rightarrow> keystore \<Rightarrow> keystore" where
  "settleGet i r st =
     (if i < length (gets st)
      then hydrateSettled (gets st ! i) r (st\<lparr>gets := take i (gets st) @ drop (Suc i) (gets st)\<rparr>)
      else st)"

datatype event =
    Change string
  | Focus
  | Blur
  | Input string
  | Advance nat
  | Settle nat fetch_result

fun step :: "keystore \<Rightarrow> event \<Rightarrow> keystore" where
  "step st (Change v) = onChange v st"
| "step st Focus = onFocus st"
| "step st Blur = onBlur st"
| "step st (Input v) = onInput v st"
| "step st (Advance t) = advance t st"
| "step st (Settle i r) = settleGet i r st"

definition run :: "event list \<Rightarrow> keystore \<Rightarrow> keystore" where
  "run evs st = foldl step st evs"

section \<open>Image stash\<close>

text \<open>
  A \<^verbatim>\<open>File\<close> is its name and its declared media type.  Object URLs are numbered in the order
  \<^verbatim>\<open>URL.createObjectURL\<close> mints them.  \<^verbatim>\<open>Math.random().toString(36).slice(2, 9)\<close> is a parameter
  \<open>rnd\<close>: the string its \<open>k\<close>-th evaluation yields.
\<close>

record jsfile =
  file_name :: string
  file_type :: string

record image_item =
  item_id :: string
  item_file :: jsfile
  item_url :: nat

text \<open>
  \<^verbatim>\<open>imageItems\<close>, the file list of \<^verbatim>\<open>imageInput\<close>, the rendered preview cards (image source
  and \<^verbatim>\<open>data-remove-id\<close>), the \<^verbatim>\<open>hidden\<close> class of the preview container, the disabled state of
  the generate button, the URLs revoked so far, and the number of URLs minted and of random
  ids drawn.
\<close>

record stash =
  imageItems :: "image_item list"
  inputFiles :: "jsfile list"
  previews :: "(nat \<times> string) list"
  previewHidden :: bool
  generateDisabled :: bool
  revoked :: "nat list"
  minted :: nat
  draws :: nat

definition rebuildInputFiles :: "stash \<Rightarrow> stash" where
  "rebuildInputFiles st = st\<lparr>inputFiles := map item_file (imageItems st)\<rparr>"

definition updateGenerateState :: "stash \<Rightarrow> stash" where
  "updateGenerateState st = st\<lparr>generateDisabled := (length (imageItems st) = 0)\<rparr>"

definition renderPreviews :: "stash \<Rightarrow> stash" where
  "renderPreviews st =
     st\<lparr>previewHidden := (length (imageItems st) = 0),
        previews := map (\<lambda>item. (item_url item, item_id item)) (imageItems st)\<rparr>"

text \<open>The body of the \<^verbatim>\<open>forEach\<close> in \<^verbatim>\<open>addFiles\<close>.\<close>

definition addFile :: "(nat \<Rightarrow> string) \<Rightarrow> stash \<Rightarrow> jsfile \<Rightarrow> stash" where
  "addFile rnd st file =
     (if \<not> startsWith (file_type file) ''image/'' then st
      else if length (imageItems st) \<ge> 6 then st
      else st\<lparr>imageItems := imageItems st @
                 [\<lparr>item_id = rnd (draws st), item_file = file, item_url = minted st\<rparr>],
              draws := Suc (draws st),
              minted := Suc (minted st)\<rparr>)"

definition addFiles :: "(nat \<Rightarrow> string) \<Rightarrow> jsfile list \<Rightarrow> stash \<Rightarrow> stash" where
  "addFiles rnd files st =
     updateGenerateState (renderPreviews (rebuildInputFiles (foldl (addFile rnd) st files)))"

definition removeFileById :: "string \<Rightarrow> stash \<Rightarrow> stash" where
  "removeFileById i st =
     (let st1 = (case find (\<lambda>item. item_id item = i) (imageItems st) of
                   None \<Rightarrow> st
                 | Some target \<Rightarrow> st\<lparr>revoked := revoked st @ [item_url target]\<rparr>);
          st2 = st1\<lparr>imageItems := filter (\<lambda>item. item_id item \<noteq> i) (imageItems st1)\<rparr>
      in updateGenerateState (renderPreviews (rebuildInputFiles st2)))"

text \<open>
  The three entry points.  A drop calls \<^verbatim>\<open>addFiles\<close>.  The \<^verbatim>\<open>change\<close> handler of the file input
  calls \<^verbatim>\<open>addFiles\<close> and then assigns \<^verbatim>\<open>imageInput.value = ''\<close>, which for a file input empties
  its list of selected files.  A click on a remove button calls \<^verbatim>\<open>removeFileById\<close>.
\<close>

datatype stash_event = Drop "jsfile list" | Pick "jsfile list" | RemoveClick string

fun stash_step :: "(nat \<Rightarrow> string) \<Rightarrow> stash \<Rightarrow> stash_event \<Rightarrow> stash" where
  "stash_step rnd st (Drop files) = addFiles rnd files st"
| "stash_step rnd st (Pick files) = (addFiles rnd files st)\<lparr>inputFiles := []\<rparr>"
| "stash_step rnd st (RemoveClick i) = removeFileById i st"

definition stash_run :: "(nat \<Rightarrow> string) \<Rightarrow> stash_event list \<Rightarrow> stash \<Rightarrow> stash" where
  "stash_run rnd evs st = foldl (stash_step rnd) st evs"

text \<open>The stash at page load, after the script's first \<^verbatim>\<open>updateGenerateState()\<close>.\<close>

definition stash_init :: stash where
  "stash_init =
     updateGenerateState
       \<lparr>imageItems = [], inputFiles = [], previews = [], previewHidden = True,
        generateDisabled = False, revoked = [], minted = 0, draws = 0\<rparr>"

section \<open>Auxiliary notions for the proofs\<close>

text \<open>
  The media-type test of \<^verbatim>\<open>addFiles\<close>, the candidates one call appends (those passing the
  test, as many as the cap of six leaves room for), and the items built for them from the
  draw counter \<open>d\<close> and the URL counter \<open>m\<close> on.
\<close>

definition isImage :: "jsfile \<Rightarrow> bool" where
  "isImage f = startsWith (file_type f) ''image/''"

fun newItems :: "(nat \<Rightarrow> string) \<Rightarrow> nat \<Rightarrow> nat \<Rightarrow> jsfile list \<Rightarrow> image_item list" where
  "newItems rnd d m [] = []"
| "newItems rnd d m (f # fs) =
     \<lparr>item_id = rnd d, item_file = f, item_url = m\<rparr> # newItems rnd (Suc d) (Suc m) fs"

definition accepted :: "stash \<Rightarrow> jsfile list \<Rightarrow> jsfile list" where
  "accepted st fs = take (6 - length (imageItems st)) (filter isImage fs)"

text \<open>
  The ids in the stash are draws of \<open>rnd\<close> at increasing positions \<open>ks\<close>, all of them made
  already.
\<close>

definition drawn_ids :: "(nat \<Rightarrow> string) \<Rightarrow> stash \<Rightarrow> nat list \<Rightarrow> bool" where
  "drawn_ids rnd st ks =
     (map item_id (imageItems st) = map rnd ks \<and> sorted_wrt (<) ks \<and> set ks \<subseteq> {..<draws st})"

text \<open>
  Only the timeout whose handle \<^verbatim>\<open>keyUpdateTimer\<close> holds can be pending, and handles are
  positive and below the next one the browser hands out.
\<close>

definition timers_ok :: "keystore \<Rightarrow> bool" where
  "timers_ok st =
     (0 < nextHandle st \<and>
      (case keyUpdateTimer st of
         None \<Rightarrow> timers st = []
       | Some h \<Rightarrow> 0 < h \<and> h < nextHandle st \<and> list_all (\<lambda>t. handle t = h) (timers st)))"

text \<open>
  An event is early for \<open>T\<close> when it does not move the clock to \<open>T\<close> or beyond.  A state is
  quiet for \<open>T\<close> when no pending timeout is due before \<open>T\<close>, the clock is below \<open>T\<close>, and a
  timeout set from now on is not due before \<open>T\<close> either.
\<close>

fun early :: "nat \<Rightarrow> event \<Rightarrow> bool" where
  "early T (Advance t) = (t < T)"
| "early T ev = True"

definition quiet :: "nat \<Rightarrow> keystore \<Rightarrow> bool" where
  "quiet T st = (timers_ok st \<and> list_all (\<lambda>x. T \<le> due x) (timers st) \<and> now st < T \<and> T \<le> now st + 400)"



section \<open>Masking\<close>

text \<open>
  C2. For every non-empty key, the masked key consists of the glyph \<open>*\<close> only, its length is the
  key's length clamped to the range 6 to 32, and it is exactly 32 for a key of 32 or more
  characters.
\<close>

theorem maskKey_clamped:
  assumes "k \<noteq> []"
  shows "maskKey k = replicate (max 6 (min (length k) 32)) CHR ''*''
       \<and> set (maskKey k) = {CHR ''*''}
       \<and> length (maskKey k) = max 6 (min (length k) 32)
       \<and> (32 \<le> length k \<longrightarrow> length (maskKey k) = 32)"
  by (auto simp: maskKey_def Let_def)

theorem maskKey_clamped_witness:
  "''sk-0123456789abcdef0123456789abcdef'' \<noteq> []
   \<and> 32 \<le> length ''sk-0123456789abcdef0123456789abcdef''
   \<and> length (maskKey ''sk-0123456789abcdef0123456789abcdef'') = 32
   \<and> maskKey ''sk-0123456789abcdef0123456789abcdef'' = ''********************************''
   \<and> set (maskKey ''sk-0123456789abcdef0123456789abcdef'') = {CHR ''*''}"
  using maskKey_clamped [of "''sk-0123456789abcdef0123456789abcdef''"]
  by (simp add: numeral_eq_Suc)

section \<open>Session guard: results\<close>

text \<open>
  C3. With a token \<open>tok\<close> supplied by the host page: when the recorded token is absent or
  differs from \<open>tok\<close>, the credential entries of the three providers and the remembered
  provider are gone afterwards and the recorded token is \<open>tok\<close>; when it equals \<open>tok\<close>, the
  storage is unchanged.
\<close>

theorem ensureFresh_wipes_or_keeps:
  "(ls STORAGE_SESSION \<noteq> Some tok \<longrightarrow>
      ensureFreshLocalStorage (Some tok) ls (getStorageKey ''gemini'') = None
    \<and> ensureFreshLocalStorage (Some tok) ls (getStorageKey ''openai'') = None
    \<and> ensureFreshLocalStorage (Some tok) ls (getStorageKey ''grok'') = None
    \<and> ensureFreshLocalStorage (Some tok) ls STORAGE_PROVIDER = None
    \<and> ensureFreshLocalStorage (Some tok) ls STORAGE_SESSION = Some tok)
 \<and> (ls STORAGE_SESSION = Some tok \<longrightarrow> ensureFreshLocalStorage (Some tok) ls = ls)"
  by (simp add: ensureFreshLocalStorage_def strictNe_def clearLocalState_def toStr_def
        getStorageKey_def STORAGE_PROVIDER_def STORAGE_SESSION_def Let_def)

theorem ensureFresh_wipes_or_keeps_witness:
  "[STORAGE_SESSION \<mapsto> ''A'', ''openai_api_key'' \<mapsto> ''sk-12345'',
    STORAGE_PROVIDER \<mapsto> ''openai''] STORAGE_SESSION \<noteq> Some ''B''
   \<and> ensureFreshLocalStorage (Some ''B'')
        [STORAGE_SESSION \<mapsto> ''A'', ''openai_api_key'' \<mapsto> ''sk-12345'',
         STORAGE_PROVIDER \<mapsto> ''openai''] (getStorageKey ''openai'') = None
   \<and> ensureFreshLocalStorage (Some ''B'')
        [STORAGE_SESSION \<mapsto> ''A'', ''openai_api_key'' \<mapsto> ''sk-12345'',
         STORAGE_PROVIDER \<mapsto> ''openai''] STORAGE_PROVIDER = None
   \<and> ensureFreshLocalStorage (Some ''B'')
        [STORAGE_SESSION \<mapsto> ''A'', ''openai_api_key'' \<mapsto> ''sk-12345'',
         STORAGE_PROVIDER \<mapsto> ''openai''] STORAGE_SESSION = Some ''B''
   \<and> [STORAGE_SESSION \<mapsto> ''A'', ''openai_api_key'' \<mapsto> ''sk-12345'',
       STORAGE_PROVIDER \<mapsto> ''openai''] STORAGE_SESSION = Some ''A''
   \<and> ensureFreshLocalStorage (Some ''A'')
        [STORAGE_SESSION \<mapsto> ''A'', ''openai_api_key'' \<mapsto> ''sk-12345'',
         STORAGE_PROVIDER \<mapsto> ''openai'']
       = [STORAGE_SESSION \<mapsto> ''A'', ''openai_api_key'' \<mapsto> ''sk-12345'',
          STORAGE_PROVIDER \<mapsto> ''openai'']"
  using ensureFresh_wipes_or_keeps
          [of "[STORAGE_SESSION \<mapsto> ''A'', ''openai_api_key'' \<mapsto> ''sk-12345'',
                STORAGE_PROVIDER \<mapsto> ''openai'']" "''B''"]
        ensureFresh_wipes_or_keeps
          [of "[STORAGE_SESSION \<mapsto> ''A'', ''openai_api_key'' \<mapsto> ''sk-12345'',
                STORAGE_PROVIDER \<mapsto> ''openai'']" "''A''"]
  by (simp add: STORAGE_PROVIDER_def STORAGE_SESSION_def)

section \<open>Image stash: results\<close>

lemmas stash_defs = stash_run_def addFiles_def addFile_def startsWith_def stash_init_def
      updateGenerateState_def renderPreviews_def rebuildInputFiles_def removeFileById_def

lemma newItems_files: "map item_file (newItems rnd d m fs) = fs"
  by (induction fs arbitrary: d m) auto

lemma newItems_ids: "map item_id (newItems rnd d m fs) = map rnd [d ..< d + length fs]"
  by (induction fs arbitrary: d m) (auto simp: upt_rec)

lemma length_newItems: "length (newItems rnd d m fs) = length fs"
  by (induction fs arbitrary: d m) auto

lemma addFile_reject:
  "\<not> (isImage f \<and> length (imageItems st) < 6) \<Longrightarrow> addFile rnd st f = st"
  by (auto simp: addFile_def isImage_def)

lemma addFile_accept:
  "isImage f \<Longrightarrow> length (imageItems st) < 6 \<Longrightarrow>
   addFile rnd st f = st\<lparr>imageItems := imageItems st @
                 [\<lparr>item_id = rnd (draws st), item_file = f, item_url = minted st\<rparr>],
              draws := Suc (draws st), minted := Suc (minted st)\<rparr>"
  by (auto simp: addFile_def isImage_def)

lemma foldl_addFile:
  "foldl (addFile rnd) st fs =
     st\<lparr>imageItems := imageItems st @ newItems rnd (draws st) (minted st) (accepted st fs),
        draws := draws st + length (accepted st fs),
        minted := minted st + length (accepted st fs)\<rparr>"
proof (induction fs arbitrary: st)
  case Nil
  show ?case by (simp add: accepted_def)
next
  case (Cons f fs)
  show ?case
  proof (cases "isImage f \<and> length (imageItems st) < 6")
    case False
    then have "accepted st (f # fs) = accepted st fs"
      by (auto simp: accepted_def)
    with False Cons[of st] show ?thesis by (simp add: addFile_reject)
  next
    case True
    let ?st' = "addFile rnd st f"
    have st': "?st' = st\<lparr>imageItems := imageItems st @
                 [\<lparr>item_id = rnd (draws st), item_file = f, item_url = minted st\<rparr>],
              draws := Suc (draws st), minted := Suc (minted st)\<rparr>"
      using True by (simp add: addFile_accept)
    from True obtain m where m: "6 - length (imageItems st) = Suc m"
      by (cases "6 - length (imageItems st)") auto
    then have m': "6 - length (imageItems ?st') = m" by (simp add: st')
    have acc: "accepted st (f # fs) = f # accepted ?st' fs"
      using True m m' by (simp add: accepted_def)
    have "foldl (addFile rnd) st (f # fs) = foldl (addFile rnd) ?st' fs" by simp
    also have "\<dots> = ?st'\<lparr>imageItems := imageItems ?st' @ newItems rnd (draws ?st') (minted ?st') (accepted ?st' fs),
        draws := draws ?st' + length (accepted ?st' fs),
        minted := minted ?st' + length (accepted ?st' fs)\<rparr>" by (rule Cons)
    also have "\<dots> = st\<lparr>imageItems := imageItems st @ newItems rnd (draws st) (minted st) (accepted st (f # fs)),
        draws := draws st + length (accepted st (f # fs)),
        minted := minted st + length (accepted st (f # fs))\<rparr>"
      unfolding acc by (simp add: st')
    finally show ?thesis .
  qed
qed

lemma addFiles_items:
  "imageItems (addFiles rnd fs st) =
     imageItems st @ newItems rnd (draws st) (minted st) (accepted st fs)"
  by (simp add: addFiles_def updateGenerateState_def renderPreviews_def rebuildInputFiles_def
        foldl_addFile)

lemma addFiles_draws: "draws (addFiles rnd fs st) = draws st + length (accepted st fs)"
  by (simp add: addFiles_def updateGenerateState_def renderPreviews_def rebuildInputFiles_def
        foldl_addFile)

lemma addFiles_inputFiles:
  "inputFiles (addFiles rnd fs st) = map item_file (imageItems (addFiles rnd fs st))"
  by (simp add: addFiles_def updateGenerateState_def renderPreviews_def rebuildInputFiles_def)

lemma removeFileById_items:
  "imageItems (removeFileById i st) = filter (\<lambda>item. item_id item \<noteq> i) (imageItems st)"
  by (simp add: removeFileById_def updateGenerateState_def renderPreviews_def
        rebuildInputFiles_def Let_def split: option.splits)

lemma removeFileById_draws: "draws (removeFileById i st) = draws st"
  by (simp add: removeFileById_def updateGenerateState_def renderPreviews_def
        rebuildInputFiles_def Let_def split: option.splits)

lemma removeFileById_inputFiles:
  "inputFiles (removeFileById i st) = map item_file (imageItems (removeFileById i st))"
  by (simp add: removeFileById_def updateGenerateState_def renderPreviews_def
        rebuildInputFiles_def Let_def split: option.splits)

lemma stash_step_size:
  "length (imageItems st) \<le> 6 \<Longrightarrow> length (imageItems (stash_step rnd st ev)) \<le> 6"
proof (cases ev)
  case (Drop fs)
  assume "length (imageItems st) \<le> 6"
  then show ?thesis using Drop
    by (simp add: addFiles_items length_newItems accepted_def)
next
  case (Pick fs)
  assume "length (imageItems st) \<le> 6"
  then show ?thesis using Pick
    by (simp add: addFiles_items length_newItems accepted_def)
next
  case (RemoveClick i)
  assume "length (imageItems st) \<le> 6"
  then show ?thesis using RemoveClick
    by (simp add: removeFileById_items le_trans[OF length_filter_le])
qed

lemma stash_run_size:
  "length (imageItems st) \<le> 6 \<Longrightarrow> length (imageItems (stash_run rnd evs st)) \<le> 6"
  unfolding stash_run_def
  by (induction evs arbitrary: st) (simp_all add: stash_step_size)

lemma stash_init_size: "length (imageItems stash_init) \<le> 6"
  by (simp add: stash_init_def updateGenerateState_def)

text \<open>
  C1. In every state the stash can reach from page load, \<^verbatim>\<open>addFiles\<close> leaves at most six
  items, their number is the smaller of six and the prior size plus the number of candidates
  whose media type starts with \<^verbatim>\<open>image/\<close>, the prior items stay in front, and the files appended
  are the valid candidates in candidate order, as far as the cap allows.
\<close>

theorem addFiles_size:
  "(let st = stash_run rnd evs stash_init; st' = addFiles rnd files st
    in length (imageItems st') \<le> 6
     \<and> length (imageItems st') =
         min 6 (length (imageItems st) + length (filter (\<lambda>f. startsWith (file_type f) ''image/'') files))
     \<and> take (length (imageItems st)) (imageItems st') = imageItems st
     \<and> map item_file (drop (length (imageItems st)) (imageItems st')) =
         take (6 - length (imageItems st)) (filter (\<lambda>f. startsWith (file_type f) ''image/'') files))"
proof -
  let ?st = "stash_run rnd evs stash_init"
  have le: "length (imageItems ?st) \<le> 6"
    by (rule stash_run_size[OF stash_init_size])
  have f: "filter (\<lambda>f. startsWith (file_type f) ''image/'') files = filter isImage files"
    unfolding isImage_def ..
  show ?thesis using le unfolding Let_def f
    by (simp add: addFiles_items length_newItems newItems_files accepted_def) arith
qed

theorem addFiles_size_witness:
  "(let st = stash_run (\<lambda>k. ''id'' @ replicate k CHR ''x'')
               [Drop [\<lparr>file_name = ''a.png'', file_type = ''image/png''\<rparr>,
                      \<lparr>file_name = ''b.jpg'', file_type = ''image/jpeg''\<rparr>,
                      \<lparr>file_name = ''c.txt'', file_type = ''text/plain''\<rparr>],
                Drop [\<lparr>file_name = ''d.png'', file_type = ''image/png''\<rparr>,
                      \<lparr>file_name = ''e.png'', file_type = ''image/png''\<rparr>,
                      \<lparr>file_name = ''f.png'', file_type = ''image/png''\<rparr>]] stash_init;
        st' = addFiles (\<lambda>k. ''id'' @ replicate k CHR ''x'')
               [\<lparr>file_name = ''g.pdf'', file_type = ''application/pdf''\<rparr>,
                \<lparr>file_name = ''h.gif'', file_type = ''image/gif''\<rparr>,
                \<lparr>file_name = ''i.png'', file_type = ''image/png''\<rparr>] st
    in length (imageItems st) = 5 \<and> length (imageItems st') = 6
     \<and> map item_file (drop 5 (imageItems st')) = [\<lparr>file_name = ''h.gif'', file_type = ''image/gif''\<rparr>])"
  using addFiles_size [of "\<lambda>k. ''id'' @ replicate k CHR ''x''"
               "[Drop [\<lparr>file_name = ''a.png'', file_type = ''image/png''\<rparr>,
                      \<lparr>file_name = ''b.jpg'', file_type = ''image/jpeg''\<rparr>,
                      \<lparr>file_name = ''c.txt'', file_type = ''text/plain''\<rparr>],
                Drop [\<lparr>file_name = ''d.png'', file_type = ''image/png''\<rparr>,
                      \<lparr>file_name = ''e.png'', file_type = ''image/png''\<rparr>,
                      \<lparr>file_name = ''f.png'', file_type = ''image/png''\<rparr>]]"
               "[\<lparr>file_name = ''g.pdf'', file_type = ''application/pdf''\<rparr>,
                \<lparr>file_name = ''h.gif'', file_type = ''image/gif''\<rparr>,
                \<lparr>file_name = ''i.png'', file_type = ''image/png''\<rparr>]"]
  by (simp add: stash_defs Let_def)

text \<open>
  When \<^verbatim>\<open>addFiles\<close> or \<^verbatim>\<open>removeFileById\<close> returns, the file list of the input is the list of
  the items' files, in the items' order.  A drop and a click on a remove button end there.
\<close>

lemma input_files_project_items:
  "inputFiles (addFiles rnd files st) = map item_file (imageItems (addFiles rnd files st))
 \<and> inputFiles (removeFileById i st) = map item_file (imageItems (removeFileById i st))"
  by (simp add: addFiles_inputFiles removeFileById_inputFiles)

lemma drop_and_remove_keep_projection:
  "inputFiles (stash_step rnd st (Drop files)) =
     map item_file (imageItems (stash_step rnd st (Drop files)))
 \<and> inputFiles (stash_step rnd st (RemoveClick i)) =
     map item_file (imageItems (stash_step rnd st (RemoveClick i)))"
  by (simp add: addFiles_inputFiles removeFileById_inputFiles)

text \<open>
  The \<^verbatim>\<open>change\<close> handler goes on after \<^verbatim>\<open>addFiles\<close> has returned: its assignment to the
  input's value leaves the input without files, whatever the stash holds.
\<close>

lemma pick_empties_input:
  "inputFiles (stash_step rnd st (Pick files)) = []"
  by simp

text \<open>
  C6. The file list of the input is not the projection of the item list after every stash
  mutation.  Picking one image through the file input on the empty stash leaves the stash
  with that image and the input with no file; dropping the same image leaves both with it.
\<close>

theorem pick_leaves_input_empty:
  "map item_file (imageItems
      (stash_run (\<lambda>k. ''k3j9x2a'')
         [Pick [\<lparr>file_name = ''a.png'', file_type = ''image/png''\<rparr>]] stash_init))
     = [\<lparr>file_name = ''a.png'', file_type = ''image/png''\<rparr>]
   \<and> inputFiles
      (stash_run (\<lambda>k. ''k3j9x2a'')
         [Pick [\<lparr>file_name = ''a.png'', file_type = ''image/png''\<rparr>]] stash_init) = []
   \<and> inputFiles
      (stash_run (\<lambda>k. ''k3j9x2a'')
         [Drop [\<lparr>file_name = ''a.png'', file_type = ''image/png''\<rparr>]] stash_init)
     = [\<lparr>file_name = ''a.png'', file_type = ''image/png''\<rparr>]"
  by (simp add: stash_defs)

lemma drawn_ids_init: "drawn_ids rnd stash_init []"
  by (simp add: drawn_ids_def stash_init_def updateGenerateState_def)

lemma drawn_ids_addFiles:
  assumes "drawn_ids rnd st ks"
  shows "drawn_ids rnd (addFiles rnd fs st) (ks @ [draws st ..< draws (addFiles rnd fs st)])"
  using assms
  by (auto simp: drawn_ids_def addFiles_items addFiles_draws newItems_ids sorted_wrt_append)

lemma drawn_ids_removeFileById:
  assumes "drawn_ids rnd st ks"
  shows "drawn_ids rnd (removeFileById i st) (filter (\<lambda>k. rnd k \<noteq> i) ks)"
proof -
  have "map item_id (filter (\<lambda>item. item_id item \<noteq> i) (imageItems st)) =
        filter (\<lambda>x. x \<noteq> i) (map item_id (imageItems st))"
    by (simp add: filter_map comp_def)
  also have "\<dots> = filter (\<lambda>x. x \<noteq> i) (map rnd ks)"
    using assms by (simp add: drawn_ids_def)
  also have "\<dots> = map rnd (filter (\<lambda>k. rnd k \<noteq> i) ks)"
    by (simp add: filter_map comp_def)
  finally show ?thesis
    using assms
    by (auto simp: drawn_ids_def removeFileById_items removeFileById_draws sorted_wrt_filter)
qed

lemma drawn_ids_inputFiles:
  "drawn_ids rnd (st\<lparr>inputFiles := fs\<rparr>) ks = drawn_ids rnd st ks"
  by (simp add: drawn_ids_def)

lemma drawn_ids_step:
  assumes "drawn_ids rnd st ks"
  shows "\<exists>ks'. drawn_ids rnd (stash_step rnd st ev) ks'
           \<and> set ks' \<subseteq> set ks \<union> {draws st ..< draws (stash_step rnd st ev)}
           \<and> draws st \<le> draws (stash_step rnd st ev)"
proof (cases ev)
  case (Drop fs)
  show ?thesis unfolding Drop stash_step.simps
    using drawn_ids_addFiles[OF assms, of fs]
    by (intro exI[of _ "ks @ [draws st ..< draws (addFiles rnd fs st)]"])
       (auto simp: addFiles_draws)
next
  case (Pick fs)
  show ?thesis unfolding Pick stash_step.simps
    using drawn_ids_addFiles[OF assms, of fs]
    by (intro exI[of _ "ks @ [draws st ..< draws (addFiles rnd fs st)]"])
       (auto simp: addFiles_draws drawn_ids_inputFiles)
next
  case (RemoveClick i)
  show ?thesis unfolding RemoveClick stash_step.simps
    using drawn_ids_removeFileById[OF assms, of i]
    by (intro exI[of _ "filter (\<lambda>k. rnd k \<noteq> i) ks"])
       (auto simp: removeFileById_draws)
qed

lemma drawn_ids_run:
  assumes "drawn_ids rnd st ks"
  shows "\<exists>ks'. drawn_ids rnd (stash_run rnd evs st) ks'
           \<and> set ks' \<subseteq> set ks \<union> {draws st ..< draws (stash_run rnd evs st)}
           \<and> draws st \<le> draws (stash_run rnd evs st)"
  using assms
proof (induction evs arbitrary: st ks)
  case Nil
  then show ?case by (auto simp: stash_run_def)
next
  case (Cons ev evs)
  from drawn_ids_step[OF Cons.prems, of ev] obtain ks1 where
    k1: "drawn_ids rnd (stash_step rnd st ev) ks1"
        "set ks1 \<subseteq> set ks \<union> {draws st ..< draws (stash_step rnd st ev)}"
        "draws st \<le> draws (stash_step rnd st ev)"
    by blast
  from Cons.IH[OF k1(1)] obtain ks2 where
    k2: "drawn_ids rnd (stash_run rnd evs (stash_step rnd st ev)) ks2"
        "set ks2 \<subseteq> set ks1 \<union> {draws (stash_step rnd st ev) ..< draws (stash_run rnd evs (stash_step rnd st ev))}"
        "draws (stash_step rnd st ev) \<le> draws (stash_run rnd evs (stash_step rnd st ev))"
    by blast
  have r: "stash_run rnd (ev # evs) st = stash_run rnd evs (stash_step rnd st ev)"
    by (simp add: stash_run_def)
  have sub: "set ks2 \<subseteq> set ks \<union> {draws st ..< draws (stash_run rnd evs (stash_step rnd st ev))}"
  proof
    fix x assume "x \<in> set ks2"
    with k2(2) consider "x \<in> set ks1"
      | "draws (stash_step rnd st ev) \<le> x" "x < draws (stash_run rnd evs (stash_step rnd st ev))"
      by auto
    then show "x \<in> set ks \<union> {draws st ..< draws (stash_run rnd evs (stash_step rnd st ev))}"
    proof cases
      case 1
      with k1(2) have "x \<in> set ks \<or> (draws st \<le> x \<and> x < draws (stash_step rnd st ev))"
        by auto
      with k2(3) show ?thesis by auto
    next
      case 2
      with k1(3) show ?thesis by auto
    qed
  qed
  show ?case unfolding r
    using k2(1) sub k1(3) k2(3) by (intro exI[of _ ks2]) simp
qed

lemma stash_run_append:
  "stash_run rnd (evs @ evs') st = stash_run rnd evs' (stash_run rnd evs st)"
  by (simp add: stash_run_def)

lemma increasing_distinct: "sorted_wrt (<) (ks :: nat list) \<Longrightarrow> distinct ks"
  by (induction ks) auto

lemma drawn_ids_set:
  assumes "drawn_ids rnd st ks"
  shows "set (map item_id (imageItems st)) = rnd ` set ks"
proof -
  have "map item_id (imageItems st) = map rnd ks" using assms by (simp add: drawn_ids_def)
  then have "set (map item_id (imageItems st)) = set (map rnd ks)" by simp
  then show ?thesis by simp
qed

lemma drawn_ids_distinct:
  assumes "drawn_ids rnd st ks" "inj_on rnd {..<draws st}"
  shows "distinct (map item_id (imageItems st))"
proof -
  have "distinct ks" using assms(1) by (simp add: drawn_ids_def increasing_distinct)
  moreover have "inj_on rnd (set ks)"
    using assms by (auto simp: drawn_ids_def intro: inj_on_subset)
  ultimately show ?thesis using assms(1) by (simp add: drawn_ids_def distinct_map)
qed

text \<open>
  C9, as stated, fails: nothing in \<^verbatim>\<open>addFiles\<close> compares a new id with the ids in use, so two
  equal draws put two items with one id into the stash.
\<close>

theorem ids_may_collide:
  "\<not> distinct (map item_id (imageItems
       (stash_run (\<lambda>k. ''k3j9x2a'')
          [Drop [\<lparr>file_name = ''a.png'', file_type = ''image/png''\<rparr>,
                 \<lparr>file_name = ''b.png'', file_type = ''image/png''\<rparr>]] stash_init)))"
  by (simp add: stash_defs)

text \<open>
  C9, amended. As long as the draws made so far are pairwise distinct, the ids in the stash
  are pairwise distinct, and an id that was in the stash and has left it is not in the stash
  at any later time.
\<close>

theorem ids_distinct_while_draws_distinct:
  assumes "inj_on rnd {..<draws (stash_run rnd (evs0 @ evs1 @ evs2) stash_init)}"
  shows "(let st0 = stash_run rnd evs0 stash_init;
              st1 = stash_run rnd evs1 st0;
              st2 = stash_run rnd evs2 st1
          in distinct (map item_id (imageItems st2))
           \<and> (i \<in> set (map item_id (imageItems st0)) \<and> i \<notin> set (map item_id (imageItems st1))
                \<longrightarrow> i \<notin> set (map item_id (imageItems st2))))"
proof -
  let ?st0 = "stash_run rnd evs0 stash_init"
  let ?st1 = "stash_run rnd evs1 ?st0"
  let ?st2 = "stash_run rnd evs2 ?st1"
  have eq: "stash_run rnd (evs0 @ evs1 @ evs2) stash_init = ?st2"
    by (simp add: stash_run_append)
  from drawn_ids_run[OF drawn_ids_init, of rnd evs0] obtain ks0 where
    k0: "drawn_ids rnd ?st0 ks0" by blast
  from drawn_ids_run[OF k0, of evs1] obtain ks1 where
    k1: "drawn_ids rnd ?st1 ks1" "draws ?st0 \<le> draws ?st1" by blast
  from drawn_ids_run[OF k1(1), of evs2] obtain ks2 where
    k2: "drawn_ids rnd ?st2 ks2" "set ks2 \<subseteq> set ks1 \<union> {draws ?st1 ..< draws ?st2}"
        "draws ?st1 \<le> draws ?st2" by blast
  have inj: "inj_on rnd {..<draws ?st2}" using assms unfolding eq .
  have d: "distinct (map item_id (imageItems ?st2))"
    by (rule drawn_ids_distinct[OF k2(1) inj])
  have r: "i \<notin> set (map item_id (imageItems ?st2))"
    if a: "i \<in> set (map item_id (imageItems ?st0))" and b: "i \<notin> set (map item_id (imageItems ?st1))"
  proof
    assume c: "i \<in> set (map item_id (imageItems ?st2))"
    from a obtain j where j: "j \<in> set ks0" "i = rnd j"
      unfolding drawn_ids_set[OF k0] by blast
    from c obtain k where k: "k \<in> set ks2" "i = rnd k"
      unfolding drawn_ids_set[OF k2(1)] by blast
    have jlt: "j < draws ?st0" using j(1) k0 by (auto simp: drawn_ids_def)
    have klt: "k < draws ?st2" using k(1) k2(1) by (auto simp: drawn_ids_def)
    have "j = k" using inj j(2) k(2) jlt klt k1(2) k2(3)
      by (auto simp: inj_on_def)
    with k(1) k2(2) jlt k1(2) have "j \<in> set ks1" by auto
    with j(2) have "i \<in> set (map item_id (imageItems ?st1))"
      unfolding drawn_ids_set[OF k1(1)] by blast
    with b show False by simp
  qed
  show ?thesis unfolding Let_def using d r by blast
qed

theorem ids_distinct_while_draws_distinct_witness:
  "(let rnd = (\<lambda>k. if k = 0 then ''q1w2e3r'' else if k = 1 then ''a9s8d7f'' else ''z0x0c0v'');
        st0 = stash_run rnd [Drop [\<lparr>file_name = ''a.png'', file_type = ''image/png''\<rparr>,
                                   \<lparr>file_name = ''b.png'', file_type = ''image/png''\<rparr>]] stash_init;
        st1 = stash_run rnd [RemoveClick ''q1w2e3r''] st0;
        st2 = stash_run rnd [Pick [\<lparr>file_name = ''c.png'', file_type = ''image/png''\<rparr>]] st1
    in inj_on rnd {..<draws st2}
     \<and> ''q1w2e3r'' \<in> set (map item_id (imageItems st0))
     \<and> ''q1w2e3r'' \<notin> set (map item_id (imageItems st1))
     \<and> ''q1w2e3r'' \<notin> set (map item_id (imageItems st2))
     \<and> distinct (map item_id (imageItems st2)))"
proof -
  let ?rnd = "\<lambda>k::nat. if k = 0 then ''q1w2e3r'' else if k = 1 then ''a9s8d7f'' else ''z0x0c0v''"
  let ?e0 = "[Drop [\<lparr>file_name = ''a.png'', file_type = ''image/png''\<rparr>,
                    \<lparr>file_name = ''b.png'', file_type = ''image/png''\<rparr>]]"
  let ?e1 = "[RemoveClick ''q1w2e3r'']"
  let ?e2 = "[Pick [\<lparr>file_name = ''c.png'', file_type = ''image/png''\<rparr>]]"
  let ?st0 = "stash_run ?rnd ?e0 stash_init"
  let ?st1 = "stash_run ?rnd ?e1 ?st0"
  let ?st2 = "stash_run ?rnd ?e2 ?st1"
  have i0: "map item_id (imageItems ?st0) = [''q1w2e3r'', ''a9s8d7f'']"
    by (simp add: stash_defs Let_def)
  have i1: "map item_id (imageItems ?st1) = [''a9s8d7f'']"
    by (simp add: stash_defs Let_def)
  have d: "draws ?st2 = 3"
    by (simp add: stash_defs Let_def)
  have "{..<(3::nat)} = {0, 1, 2}" by auto
  then have inj: "inj_on ?rnd {..<draws ?st2}"
    unfolding d by (simp add: inj_on_def)
  then have inj': "inj_on ?rnd {..<draws (stash_run ?rnd (?e0 @ ?e1 @ ?e2) stash_init)}"
    by (simp only: stash_run_append)
  have a: "''q1w2e3r'' \<in> set (map item_id (imageItems ?st0))" unfolding i0 by simp
  have b: "''q1w2e3r'' \<notin> set (map item_id (imageItems ?st1))" unfolding i1 by simp
  from ids_distinct_while_draws_distinct [OF inj', of "''q1w2e3r''"]
  have "distinct (map item_id (imageItems ?st2))
      \<and> (''q1w2e3r'' \<in> set (map item_id (imageItems ?st0))
           \<and> ''q1w2e3r'' \<notin> set (map item_id (imageItems ?st1))
          \<longrightarrow> ''q1w2e3r'' \<notin> set (map item_id (imageItems ?st2)))"
    unfolding Let_def .
  with a b inj show ?thesis unfolding Let_def by blast
qed

section \<open>Key store: results\<close>

lemmas ls_defs = startup_def ensureFreshLocalStorage_def strictNe_def clearLocalState_def
      toStr_def orEmpty_def syncProvider_def applyMaskedKey_def hydrateFromEnv_def
      getStorageKey_def STORAGE_PROVIDER_def STORAGE_SESSION_def providerLabels_def settleGet_def


lemma applyMaskedKey_timers [simp]:
  "timers (applyMaskedKey p k st) = timers st"
  "keyUpdateTimer (applyMaskedKey p k st) = keyUpdateTimer st"
  "nextHandle (applyMaskedKey p k st) = nextHandle st"
  "posts (applyMaskedKey p k st) = posts st"
  "now (applyMaskedKey p k st) = now st"
  "providerInput (applyMaskedKey p k st) = providerInput st"
  "gets (applyMaskedKey p k st) = gets st"
  by (simp_all add: applyMaskedKey_def)

lemma syncProvider_timers [simp]:
  "timers (syncProvider p st) = timers st"
  "keyUpdateTimer (syncProvider p st) = keyUpdateTimer st"
  "nextHandle (syncProvider p st) = nextHandle st"
  "posts (syncProvider p st) = posts st"
  "now (syncProvider p st) = now st"
  "providerInput (syncProvider p st) = p"
  by (simp_all add: syncProvider_def hydrateFromEnv_def Let_def)

lemma hydrateSettled_timers [simp]:
  "timers (hydrateSettled p r st) = timers st"
  "keyUpdateTimer (hydrateSettled p r st) = keyUpdateTimer st"
  "nextHandle (hydrateSettled p r st) = nextHandle st"
  "posts (hydrateSettled p r st) = posts st"
  "now (hydrateSettled p r st) = now st"
  "providerInput (hydrateSettled p r st) = providerInput st"
  by (induction p r st rule: hydrateSettled.induct; simp add: Let_def)+

lemma timers_ok_eqI:
  "timers_ok st \<Longrightarrow> timers st' = timers st \<Longrightarrow> keyUpdateTimer st' = keyUpdateTimer st \<Longrightarrow>
   nextHandle st' = nextHandle st \<Longrightarrow> timers_ok st'"
  by (auto simp: timers_ok_def split: option.splits)

lemma onInput_nonempty:
  assumes "timers_ok st" "v \<noteq> []"
  shows "timers (onInput v st) =
           [\<lparr>handle = nextHandle st, due = now st + 400,
             cb_provider = providerInput st, cb_key = v\<rparr>]"
    and "posts (onInput v st) = posts st"
    and "now (onInput v st) = now st"
    and "providerInput (onInput v st) = providerInput st"
    and "timers_ok (onInput v st)"
    and "keyCache (onInput v st) (providerInput st) = Some v"
    and "localStorage (onInput v st) (getStorageKey (providerInput st)) = Some v"
proof -
  have flt: "filter (\<lambda>t. handle t \<noteq> h) (timers st) = []" if "keyUpdateTimer st = Some h" for h
    using assms(1) that by (auto simp: timers_ok_def list_all_iff filter_empty_conv)
  have emp: "timers st = []" if "keyUpdateTimer st = None"
    using assms(1) that by (simp add: timers_ok_def)
  have pos: "0 < h" if "keyUpdateTimer st = Some h" for h
    using assms(1) that by (simp add: timers_ok_def)
  show "timers (onInput v st) =
           [\<lparr>handle = nextHandle st, due = now st + 400,
             cb_provider = providerInput st, cb_key = v\<rparr>]"
    using assms(2) flt emp pos
    by (cases "keyUpdateTimer st") (auto simp: onInput_def scheduleKeySync_def clearTimeout_def Let_def)
  show "posts (onInput v st) = posts st" "now (onInput v st) = now st"
       "providerInput (onInput v st) = providerInput st"
       "keyCache (onInput v st) (providerInput st) = Some v"
       "localStorage (onInput v st) (getStorageKey (providerInput st)) = Some v"
    using assms(2)
    by (cases "keyUpdateTimer st"; simp add: onInput_def scheduleKeySync_def clearTimeout_def Let_def)+
  show "timers_ok (onInput v st)"
    using assms flt emp pos
    by (cases "keyUpdateTimer st") (auto simp: timers_ok_def onInput_def scheduleKeySync_def clearTimeout_def Let_def)
qed

lemma onInput_empty:
  shows "timers (onInput [] st) = timers st"
    and "posts (onInput [] st) = posts st"
    and "now (onInput [] st) = now st"
    and "providerInput (onInput [] st) = providerInput st"
    and "keyUpdateTimer (onInput [] st) = keyUpdateTimer st"
    and "nextHandle (onInput [] st) = nextHandle st"
    and "keyCache (onInput [] st) (providerInput st) = Some []"
    and "localStorage (onInput [] st) (getStorageKey (providerInput st)) = None"
  by (simp_all add: onInput_def Let_def)

lemma timers_ok_step: "timers_ok st \<Longrightarrow> timers_ok (step st ev)"
proof (cases ev)
  case (Change v)
  assume "timers_ok st" then show ?thesis unfolding Change
    by (rule timers_ok_eqI) (simp_all add: onChange_def)
next
  case Focus
  assume "timers_ok st" then show ?thesis unfolding Focus
    by (rule timers_ok_eqI) (simp_all add: onFocus_def)
next
  case Blur
  assume "timers_ok st" then show ?thesis unfolding Blur
    by (rule timers_ok_eqI) (simp_all add: onBlur_def Let_def split: option.splits)
next
  case (Input v)
  assume a: "timers_ok st"
  show ?thesis
  proof (cases "v = []")
    case True
    with a show ?thesis unfolding Input
      by (simp add: timers_ok_eqI[OF a] onInput_empty)
  next
    case False
    with a show ?thesis unfolding Input by (simp add: onInput_nonempty)
  qed
next
  case (Advance t)
  assume "timers_ok st" then show ?thesis unfolding Advance
    by (auto simp: advance_def timers_ok_def Let_def list_all_iff split: option.splits)
next
  case (Settle i r)
  assume "timers_ok st" then show ?thesis unfolding Settle
    by (rule timers_ok_eqI) (simp_all add: settleGet_def)
qed

lemma timers_ok_run: "timers_ok st \<Longrightarrow> timers_ok (run evs st)"
  unfolding run_def by (induction evs arbitrary: st) (simp_all add: timers_ok_step)

lemma timers_ok_startup: "timers_ok (startup appInstance ls)"
  by (simp add: startup_def timers_ok_def Let_def)

lemma timers_ok_reachable: "timers_ok (run evs (startup appInstance ls))"
  by (rule timers_ok_run[OF timers_ok_startup])

lemma run_Cons: "run (ev # evs) st = run evs (step st ev)"
  by (simp add: run_def)

lemma run_Nil: "run [] st = st"
  by (simp add: run_def)

lemma advance_early:
  assumes "timers st = [x]" "now st \<le> t" "t < due x"
  shows "advance t st = st\<lparr>now := t\<rparr>"
  using assms by (simp add: advance_def Let_def max_def)

lemma advance_late:
  assumes "timers st = [x]" "due x \<le> t"
  shows "posts (advance t st) = posts st @ [(cb_provider x, cb_key x)]"
    and "timers (advance t st) = []"
  using assms by (simp_all add: advance_def Let_def max_def)

lemma advance_fields [simp]:
  "providerInput (advance t st) = providerInput st"
  "keyCache (advance t st) = keyCache st"
  "localStorage (advance t st) = localStorage st"
  by (simp_all add: advance_def Let_def)

lemma onChange_fields [simp]:
  "timers (onChange q st) = timers st"
  "posts (onChange q st) = posts st"
  "now (onChange q st) = now st"
  "providerInput (onChange q st) = q"
  by (simp_all add: onChange_def)

lemma edit_then_wait:
  assumes ok: "timers_ok st" and v: "v \<noteq> []" and t: "now st \<le> t" "t < now st + 400"
  shows "timers (run [Input v, Advance t] st) =
           [\<lparr>handle = nextHandle st, due = now st + 400,
             cb_provider = providerInput st, cb_key = v\<rparr>]"
    and "posts (run [Input v, Advance t] st) = posts st"
    and "now (run [Input v, Advance t] st) = t"
    and "providerInput (run [Input v, Advance t] st) = providerInput st"
    and "timers_ok (run [Input v, Advance t] st)"
    and "keyCache (run [Input v, Advance t] st) (providerInput st) = Some v"
    and "localStorage (run [Input v, Advance t] st) (getStorageKey (providerInput st)) = Some v"
proof -
  let ?x = "\<lparr>handle = nextHandle st, due = now st + 400,
             cb_provider = providerInput st, cb_key = v\<rparr>"
  let ?s1 = "onInput v st"
  have r: "run [Input v, Advance t] st = advance t ?s1"
    by (simp add: run_def)
  have tm: "timers ?s1 = [?x]" by (rule onInput_nonempty(1)[OF ok v])
  have adv: "advance t ?s1 = ?s1\<lparr>now := t\<rparr>"
    by (rule advance_early[OF tm]) (simp_all add: onInput_nonempty[OF ok v] t)
  show "timers (run [Input v, Advance t] st) = [?x]"
    unfolding r adv by (simp add: tm)
  show "posts (run [Input v, Advance t] st) = posts st"
    unfolding r adv by (simp add: onInput_nonempty[OF ok v])
  show "now (run [Input v, Advance t] st) = t"
    unfolding r adv by simp
  show "providerInput (run [Input v, Advance t] st) = providerInput st"
    unfolding r adv by (simp add: onInput_nonempty[OF ok v])
  show "timers_ok (run [Input v, Advance t] st)"
    by (rule timers_ok_run[OF ok])
  show "keyCache (run [Input v, Advance t] st) (providerInput st) = Some v"
    unfolding r adv by (simp add: onInput_nonempty[OF ok v])
  show "localStorage (run [Input v, Advance t] st) (getStorageKey (providerInput st)) = Some v"
    unfolding r adv by (simp add: onInput_nonempty[OF ok v])
qed

lemma run_append: "run (evs @ evs') st = run evs' (run evs st)"
  by (simp add: run_def)

lemma startup_env [simp]:
  "now (startup appInstance ls) = 0"
  "posts (startup appInstance ls) = []"
  by (simp_all add: startup_def Let_def)

lemma startup_fresh_provider:
  "providerInput (startup (Some ''A'') Map.empty) = ''gemini''"
  by (simp add: startup_def Let_def ensureFreshLocalStorage_def strictNe_def clearLocalState_def
        toStr_def STORAGE_PROVIDER_def STORAGE_SESSION_def)

lemma quiet_step:
  assumes "quiet T st" "early T ev"
  shows "quiet T (step st ev) \<and> posts (step st ev) = posts st"
proof -
  have ok: "timers_ok st" and du: "list_all (\<lambda>x. T \<le> due x) (timers st)"
    and n1: "now st < T" and n2: "T \<le> now st + 400"
    using assms(1) by (simp_all add: quiet_def)
  have ok': "timers_ok (step st ev)" by (rule timers_ok_step[OF ok])
  show ?thesis
  proof (cases ev)
    case (Change q)
    then show ?thesis using ok' du n1 n2 by (simp add: quiet_def)
  next
    case Focus
    then show ?thesis using ok' du n1 n2 by (simp add: quiet_def onFocus_def)
  next
    case Blur
    then show ?thesis using ok' du n1 n2
      by (simp add: quiet_def onBlur_def Let_def split: option.splits)
  next
    case (Input v)
    show ?thesis
    proof (cases "v = []")
      case True
      then show ?thesis using ok' du n1 n2 unfolding Input
        by (simp add: quiet_def onInput_empty)
    next
      case False
      then show ?thesis using ok' du n1 n2 unfolding Input
        by (simp add: quiet_def onInput_nonempty[OF ok False])
    qed
  next
    case (Advance t)
    with assms(2) have t: "t < T" by simp
    have f1: "filter (\<lambda>x. due x \<le> max t (now st)) (timers st) = []"
      using du t n1 by (auto simp: filter_empty_conv list_all_iff)
    have f2: "filter (\<lambda>x. \<not> due x \<le> max t (now st)) (timers st) = timers st"
      using du t n1 by (auto simp: filter_id_conv list_all_iff)
    have "advance t st = st\<lparr>now := max t (now st)\<rparr>"
      by (simp add: advance_def Let_def f1 f2)
    then show ?thesis using ok' du n1 n2 t unfolding Advance
      by (simp add: quiet_def)
  next
    case (Settle i r)
    then show ?thesis using ok' du n1 n2 by (simp add: quiet_def settleGet_def)
  qed
qed

lemma quiet_run:
  assumes "quiet T st" "list_all (early T) evs"
  shows "quiet T (run evs st) \<and> posts (run evs st) = posts st"
  using assms
proof (induction evs arbitrary: st)
  case Nil
  then show ?case by (simp add: run_Nil)
next
  case (Cons ev evs)
  from Cons.prems have e: "early T ev" "list_all (early T) evs" by simp_all
  from quiet_step[OF Cons.prems(1) e(1)]
  have q: "quiet T (step st ev)" and p: "posts (step st ev) = posts st" by simp_all
  from Cons.IH[OF q e(2)] p show ?case by (simp add: run_Cons)
qed

lemma handler_clock [simp]:
  "now (onFocus st) = now st"
  "now (onBlur st) = now st"
  "now (onInput v st) = now st"
  "now (advance t st) = max t (now st)"
  "now (settleGet i r st) = now st"
  by (simp_all add: onFocus_def onBlur_def onInput_def scheduleKeySync_def clearTimeout_def
        advance_def settleGet_def Let_def split: option.splits)

lemma handler_provider [simp]:
  "providerInput (onFocus st) = providerInput st"
  "providerInput (onBlur st) = providerInput st"
  "providerInput (onInput v st) = providerInput st"
  "providerInput (settleGet i r st) = providerInput st"
  by (simp_all add: onFocus_def onBlur_def onInput_def scheduleKeySync_def clearTimeout_def
        settleGet_def Let_def split: option.splits)

text \<open>
  C4. In a state reached from page load, take a non-empty edit, then any events that keep the
  clock within 400 time units of it, then a second non-empty edit with the same provider
  active.  Nothing has been sent in between, exactly one timeout is pending, the second
  edit's, and once the clock has passed its due time exactly one write has been sent, with
  that provider and the second value.
\<close>

theorem two_edits_one_write:
  assumes "st = run evs (startup appInstance ls)"
    and "v1 \<noteq> []" and "v2 \<noteq> []"
    and "list_all (early (now st + 400)) mid"
    and "s2 = run (Input v1 # mid) st"
    and "providerInput s2 = providerInput st"
    and "now s2 + 400 \<le> t3"
  shows "now s2 < now st + 400
       \<and> posts (run (Input v1 # mid @ [Input v2]) st) = posts st
       \<and> map (\<lambda>x. (due x, cb_provider x, cb_key x)) (timers (run (Input v1 # mid @ [Input v2]) st))
           = [(now s2 + 400, providerInput st, v2)]
       \<and> posts (run (Input v1 # mid @ [Input v2, Advance t3]) st)
           = posts st @ [(providerInput st, v2)]
       \<and> timers (run (Input v1 # mid @ [Input v2, Advance t3]) st) = []"
proof -
  have ok: "timers_ok st" unfolding assms(1) by (rule timers_ok_reachable)
  let ?T = "now st + 400"
  let ?s1 = "onInput v1 st"
  note s1 = onInput_nonempty[OF ok assms(2)]
  have q1: "quiet ?T ?s1" by (simp add: quiet_def s1)
  have s2: "s2 = run mid ?s1" unfolding assms(5) by (simp add: run_Cons)
  from quiet_run[OF q1 assms(4)]
  have q2: "quiet ?T s2" and p2: "posts s2 = posts st" unfolding s2 by (simp_all add: s1)
  then have ok2: "timers_ok s2" and n2: "now s2 < ?T" by (simp_all add: quiet_def)
  let ?s3 = "onInput v2 s2"
  note s3 = onInput_nonempty[OF ok2 assms(3)]
  have r3: "run (Input v1 # mid @ [Input v2]) st = ?s3"
    using run_append[of "Input v1 # mid" "[Input v2]" st] by (simp add: assms(5) run_Cons run_Nil)
  have r4: "run (Input v1 # mid @ [Input v2, Advance t3]) st = advance t3 ?s3"
    using run_append[of "Input v1 # mid" "[Input v2, Advance t3]" st]
    by (simp add: assms(5) run_Cons run_Nil)
  have tm3: "timers ?s3 = [\<lparr>handle = nextHandle s2, due = now s2 + 400,
             cb_provider = providerInput st, cb_key = v2\<rparr>]"
    using s3(1) by (simp add: assms(6))
  have p3: "posts ?s3 = posts st" using s3(2) by (simp add: p2)
  have "posts (advance t3 ?s3) = posts st @ [(providerInput st, v2)]"
    using advance_late(1)[OF tm3, of t3] assms(7) by (simp add: p3)
  moreover have "timers (advance t3 ?s3) = []"
    using advance_late(2)[OF tm3, of t3] assms(7) by simp
  ultimately show ?thesis unfolding r3 r4 using n2 by (simp add: p3 tm3)
qed

theorem two_edits_one_write_witness:
  "(let st = run [] (startup (Some ''A'') Map.empty);
        mid = [Advance 100, Blur, Input ''sk-12'', Focus, Advance 399];
        s2 = run (Input ''sk-1'' # mid) st
    in ''sk-1'' \<noteq> [] \<and> ''sk-12345'' \<noteq> [] \<and> list_all (early (now st + 400)) mid
     \<and> providerInput s2 = providerInput st \<and> now s2 + 400 \<le> 799
     \<and> posts st = []
     \<and> posts (run (Input ''sk-1'' # mid @ [Input ''sk-12345'']) st) = []
     \<and> posts (run (Input ''sk-1'' # mid @ [Input ''sk-12345'', Advance 799]) st)
         = [(''gemini'', ''sk-12345'')])"
proof -
  let ?st = "run [] (startup (Some ''A'') Map.empty)"
  let ?mid = "[Advance 100, Blur, Input ''sk-12'', Focus, Advance 399]"
  let ?s2 = "run (Input ''sk-1'' # ?mid) ?st"
  have n: "now ?s2 = 399" by (simp add: run_Cons run_Nil)
  have p: "providerInput ?s2 = providerInput ?st" by (simp add: run_Cons run_Nil)
  have e: "list_all (early (now ?st + 400)) ?mid" by (simp add: run_Nil)
  have t: "now ?s2 + 400 \<le> 799" by (simp add: n)
  show ?thesis
    using two_edits_one_write
            [where st = ?st and evs = "[]" and appInstance = "Some ''A''" and ls = Map.empty
               and mid = ?mid and ?v1.0 = "''sk-1''" and ?v2.0 = "''sk-12345''"
               and ?s2.0 = ?s2 and ?t3.0 = 799] e p t
    unfolding Let_def by (simp add: run_Nil startup_fresh_provider)
qed

text \<open>
  C5. A write scheduled for provider \<open>P\<close> with value \<open>v\<close> is sent as \<open>(P, v)\<close> when its
  timeout fires, also when the active provider was changed to \<open>q\<close> in between.
\<close>

theorem captured_pair_survives_provider_switch:
  assumes "st = run evs (startup appInstance ls)"
    and "v \<noteq> []"
    and "now st \<le> t2" and "t2 < now st + 400" and "now st + 400 \<le> t3"
  shows "posts (run [Input v, Advance t2, Change q] st) = posts st
       \<and> providerInput (run [Input v, Advance t2, Change q] st) = q
       \<and> posts (run [Input v, Advance t2, Change q, Advance t3] st)
           = posts st @ [(providerInput st, v)]
       \<and> providerInput (run [Input v, Advance t2, Change q, Advance t3] st) = q"
proof -
  have ok: "timers_ok st" unfolding assms(1) by (rule timers_ok_reachable)
  let ?s2 = "run [Input v, Advance t2] st"
  note s2 = edit_then_wait[OF ok assms(2) assms(3) assms(4)]
  let ?s3 = "onChange q ?s2"
  have r3: "run [Input v, Advance t2, Change q] st = ?s3"
    using run_append[of "[Input v, Advance t2]" "[Change q]" st] by (simp add: run_def)
  have r4: "run [Input v, Advance t2, Change q, Advance t3] st = advance t3 ?s3"
    using run_append[of "[Input v, Advance t2]" "[Change q, Advance t3]" st] by (simp add: run_def)
  have tm3: "timers ?s3 = [\<lparr>handle = nextHandle st, due = now st + 400,
             cb_provider = providerInput st, cb_key = v\<rparr>]"
    by (simp add: s2)
  have p3: "posts ?s3 = posts st" by (simp add: s2)
  have "posts (advance t3 ?s3) = posts st @ [(providerInput st, v)]"
    using advance_late(1)[OF tm3, of t3] assms(5) by (simp add: s2)
  then show ?thesis unfolding r3 r4 by (simp add: s2)
qed

theorem captured_pair_survives_provider_switch_witness:
  "(let st = run [] (startup (Some ''A'') Map.empty)
    in ''sk-1'' \<noteq> [] \<and> now st \<le> 100 \<and> 100 < now st + 400 \<and> now st + 400 \<le> 500
     \<and> providerInput st = ''gemini''
     \<and> providerInput (run [Input ''sk-1'', Advance 100, Change ''openai'', Advance 500] st) = ''openai''
     \<and> posts (run [Input ''sk-1'', Advance 100, Change ''openai'', Advance 500] st)
         = [(''gemini'', ''sk-1'')])"
  using captured_pair_survives_provider_switch
          [of "run [] (startup (Some ''A'') Map.empty)" "[]" "Some ''A''" Map.empty
           "''sk-1''" 100 500 "''openai''"]
  by (simp add: run_Nil startup_fresh_provider Let_def)

text \<open>
  C10. Clearing the field within 400 time units of a non-empty edit empties the cache slot
  and removes the storage entry of the active provider, but the timeout of the earlier edit
  stays pending, and when it fires the earlier pair is sent.
\<close>

theorem clearing_field_keeps_pending_write:
  assumes "st = run evs (startup appInstance ls)"
    and "v \<noteq> []"
    and "now st \<le> t2" and "t2 < now st + 400" and "now st + 400 \<le> t3"
  shows "keyCache (run [Input v, Advance t2, Input []] st) (providerInput st) = Some []
       \<and> localStorage (run [Input v, Advance t2, Input []] st) (getStorageKey (providerInput st)) = None
       \<and> map (\<lambda>x. (due x, cb_provider x, cb_key x)) (timers (run [Input v, Advance t2, Input []] st))
           = [(now st + 400, providerInput st, v)]
       \<and> posts (run [Input v, Advance t2, Input []] st) = posts st
       \<and> posts (run [Input v, Advance t2, Input [], Advance t3] st)
           = posts st @ [(providerInput st, v)]
       \<and> keyCache (run [Input v, Advance t2, Input [], Advance t3] st) (providerInput st) = Some []
       \<and> localStorage (run [Input v, Advance t2, Input [], Advance t3] st)
            (getStorageKey (providerInput st)) = None"
proof -
  have ok: "timers_ok st" unfolding assms(1) by (rule timers_ok_reachable)
  let ?s2 = "run [Input v, Advance t2] st"
  note s2 = edit_then_wait[OF ok assms(2) assms(3) assms(4)]
  let ?s3 = "onInput [] ?s2"
  have r3: "run [Input v, Advance t2, Input []] st = ?s3"
    using run_append[of "[Input v, Advance t2]" "[Input []]" st] by (simp add: run_def)
  have r4: "run [Input v, Advance t2, Input [], Advance t3] st = advance t3 ?s3"
    using run_append[of "[Input v, Advance t2]" "[Input [], Advance t3]" st] by (simp add: run_def)
  have tm3: "timers ?s3 = [\<lparr>handle = nextHandle st, due = now st + 400,
             cb_provider = providerInput st, cb_key = v\<rparr>]"
    by (simp add: onInput_empty s2)
  have p3: "posts ?s3 = posts st" by (simp add: onInput_empty s2)
  have kc: "keyCache ?s3 (providerInput st) = Some []"
    using onInput_empty(7)[of ?s2] by (simp add: s2)
  have ls: "localStorage ?s3 (getStorageKey (providerInput st)) = None"
    using onInput_empty(8)[of ?s2] by (simp add: s2)
  have "posts (advance t3 ?s3) = posts st @ [(providerInput st, v)]"
    using advance_late(1)[OF tm3, of t3] assms(5) by (simp add: p3)
  then show ?thesis unfolding r3 r4 by (simp add: p3 tm3 kc ls)
qed

theorem clearing_field_keeps_pending_write_witness:
  "(let st = run [] (startup (Some ''A'') Map.empty)
    in ''sk-1'' \<noteq> [] \<and> now st \<le> 100 \<and> 100 < now st + 400 \<and> now st + 400 \<le> 500
     \<and> localStorage (run [Input ''sk-1'', Advance 100, Input []] st) (getStorageKey ''gemini'') = None
     \<and> keyCache (run [Input ''sk-1'', Advance 100, Input []] st) ''gemini'' = Some []
     \<and> posts (run [Input ''sk-1'', Advance 100, Input [], Advance 500] st)
         = [(''gemini'', ''sk-1'')])"
  using clearing_field_keeps_pending_write
          [of "run [] (startup (Some ''A'') Map.empty)" "[]" "Some ''A''" Map.empty
           "''sk-1''" 100 500]
  by (simp add: run_Nil startup_fresh_provider Let_def)

lemma settleGet_last:
  "gets st' = gs @ [p] \<Longrightarrow>
   settleGet (length gs) r st' = hydrateSettled p r (st'\<lparr>gets := gs\<rparr>)"
  by (simp add: settleGet_def nth_append)




lemma applyMaskedKey_storage [simp]:
  "localStorage (applyMaskedKey p k st) = localStorage st"
  by (simp add: applyMaskedKey_def)














text \<open>
  C8, as stated, fails: the status code is never read, so a response outside the 2xx range
  whose body carries a non-empty \<^verbatim>\<open>api_key\<close> is adopted like a successful one.
\<close>

theorem non2xx_body_is_adopted:
  "\<not> (200 \<le> (500::nat) \<and> (500::nat) < 300)
   \<and> gets (startup (Some ''A'') Map.empty) = [''gemini'']
   \<and> localStorage (startup (Some ''A'') Map.empty) (getStorageKey ''gemini'') = None
   \<and> localStorage (settleGet 0 (Response 500 (JsonObject (Some ''sk-env'')))
        (startup (Some ''A'') Map.empty)) (getStorageKey ''gemini'') = Some ''sk-env''
   \<and> keyCache (settleGet 0 (Response 500 (JsonObject (Some ''sk-env'')))
        (startup (Some ''A'') Map.empty)) ''gemini'' = Some ''sk-env''
   \<and> masked (settleGet 0 (Response 500 (JsonObject (Some ''sk-env'')))
        (startup (Some ''A'') Map.empty))
   \<and> \<not> masked (startup (Some ''A'') Map.empty)"
  by (simp add: ls_defs Let_def)

text \<open>
  C8, amended. Whatever the status code, a body with a non-empty \<^verbatim>\<open>api_key\<close> fills the cache
  and the storage entry of the provider and sets the masked display, and no write is
  scheduled or sent; a network error, a body that is not JSON, or a body without a non-empty
  \<^verbatim>\<open>api_key\<close> leaves the whole state as it was.
\<close>

theorem hydrate_adopts_by_body:
  "(k \<noteq> [] \<longrightarrow>
      keyCache (settleGet (length (gets st)) (Response status (JsonObject (Some k))) (hydrateFromEnv p st)) p = Some k
    \<and> localStorage (settleGet (length (gets st)) (Response status (JsonObject (Some k))) (hydrateFromEnv p st))
         (getStorageKey p) = Some k
    \<and> apiKeyVisible (settleGet (length (gets st)) (Response status (JsonObject (Some k))) (hydrateFromEnv p st))
         = maskKey k
    \<and> masked (settleGet (length (gets st)) (Response status (JsonObject (Some k))) (hydrateFromEnv p st))
    \<and> timers (settleGet (length (gets st)) (Response status (JsonObject (Some k))) (hydrateFromEnv p st))
         = timers st
    \<and> keyUpdateTimer (settleGet (length (gets st)) (Response status (JsonObject (Some k))) (hydrateFromEnv p st))
         = keyUpdateTimer st
    \<and> posts (settleGet (length (gets st)) (Response status (JsonObject (Some k))) (hydrateFromEnv p st))
         = posts st)
 \<and> (r = NetworkError \<or> r = Response status NotJson \<or> r = Response status JsonFalsy
       \<or> r = Response status (JsonObject None) \<or> r = Response status (JsonObject (Some []))
     \<longrightarrow> settleGet (length (gets st)) r (hydrateFromEnv p st) = st)"
proof -
  have g: "gets (hydrateFromEnv p st) = gets st @ [p]" by (simp add: hydrateFromEnv_def)
  have undo: "(hydrateFromEnv p st)\<lparr>gets := gets st\<rparr> = st" by (simp add: hydrateFromEnv_def)
  have s: "settleGet (length (gets st)) r' (hydrateFromEnv p st) = hydrateSettled p r' st" for r'
    unfolding settleGet_last[OF g] undo ..
  show ?thesis unfolding s
    by (auto simp: applyMaskedKey_def Let_def)
qed

theorem hydrate_adopts_by_body_witness:
  "(let st = run [Input ''sk-1''] (startup (Some ''A'') Map.empty);
        st' = settleGet (length (gets st)) (Response 200 (JsonObject (Some ''sk-env'')))
                (hydrateFromEnv ''grok'' st)
    in ''sk-env'' \<noteq> []
     \<and> keyCache st' ''grok'' = Some ''sk-env''
     \<and> localStorage st' (getStorageKey ''grok'') = Some ''sk-env''
     \<and> apiKeyVisible st' = ''******''
     \<and> masked st'
     \<and> timers st' = timers st \<and> posts st' = posts st
     \<and> settleGet (length (gets st)) NetworkError (hydrateFromEnv ''grok'' st) = st)"
proof -
  have m: "maskKey ''sk-env'' = ''******''"
    by (simp add: maskKey_def numeral_eq_Suc)
  show ?thesis
    using hydrate_adopts_by_body
            [of "''sk-env''" "run [Input ''sk-1''] (startup (Some ''A'') Map.empty)" 200 "''grok''"
                NetworkError]
    unfolding Let_def by (simp add: m)
qed

end
